theory Spec2Isabelle
  imports Main "HOL-Library.AList" "HOL-Library.Sublist"
begin

section \<open>Flycacher: a capacity and TTL bounded cache (src/src/index.ts)\<close>

text \<open>
  The class \<open>Flycacher\<close> of \<open>src/src/index.ts\<close> is embedded as a record of its
  fields and one HOL function per method.

  \<^item> JavaScript numbers are modelled as \<open>int\<close>: the timestamps come from \<open>Date.now()\<close>
    (whole milliseconds) and the configuration is documented as integers.
  \<^item> The private \<open>Map\<close> from keys to entries is an association list in insertion order, which is
    the iteration order of a JavaScript \<open>Map\<close>. \<open>Map.delete\<close> is \<open>AList.delete\<close>,
    \<open>Map.set\<close> is \<open>AList.update\<close> (an existing key keeps its position, a new key is
    appended), \<open>Map.get\<close> is \<open>map_of\<close>. A JavaScript \<open>Map\<close> holds each key once; the
    theorems that need it assume \<open>distinct (map fst (values s))\<close>.
  \<^item> Every \<open>Date.now()\<close> is an explicit argument, one per call site.
  \<^item> The miss callback is an effectful function: it is given the state \<open>'w\<close> of the world
    outside the cache and returns the new one, with \<open>Inl\<close> for a throw or a rejected
    promise and \<open>Inr\<close> for the resolved value.
\<close>

subsection \<open>Data\<close>

record FlycacherOptions =
  opt_capacity :: int
  opt_prune :: int
  opt_ttl :: "int option"

record 'v Entry =
  "value" :: 'v
  entered :: int

record ('k, 'v, 'e, 'w) Flycacher =
  "values" :: "('k \<times> 'v Entry) list"
  capacity :: int
  pruneAmount :: int
  ttl :: "int option"
  oldest :: int
  missCallback :: "'k \<Rightarrow> 'w \<Rightarrow> ('e + 'v) \<times> 'w"

definition Map_size :: "('k \<times> 'a) list \<Rightarrow> int" where
  "Map_size m = int (length m)"

subsection \<open>Constructor, clear, delete\<close>

text \<open>
  \<open>this.ttl = options.ttl || null\<close>: an omitted \<open>ttl\<close> and the falsy number \<open>0\<close> both
  give \<open>null\<close>. The field initialiser \<open>oldest = Date.now()\<close> reads the clock once (\<open>now\<close>).
\<close>

definition construct ::
  "('k \<Rightarrow> 'w \<Rightarrow> ('e + 'v) \<times> 'w) \<Rightarrow> FlycacherOptions \<Rightarrow> int \<Rightarrow> ('k, 'v, 'e, 'w) Flycacher" where
  "construct cb options now =
     \<lparr> values = [],
       capacity = opt_capacity options,
       pruneAmount = opt_prune options,
       ttl = (case opt_ttl options of None \<Rightarrow> None | Some t \<Rightarrow> if t = 0 then None else Some t),
       oldest = now,
       missCallback = cb \<rparr>"

definition clear :: "('k, 'v, 'e, 'w) Flycacher \<Rightarrow> ('k, 'v, 'e, 'w) Flycacher" where
  "clear s = s\<lparr>values := []\<rparr>"

definition delete :: "'k \<Rightarrow> ('k, 'v, 'e, 'w) Flycacher \<Rightarrow> ('k, 'v, 'e, 'w) Flycacher" where
  "delete key s = s\<lparr>values := AList.delete key (values s)\<rparr>"

subsection \<open>prune\<close>

text \<open>
  The capacity loop \<open>for (const key of this.values.keys()) { delete; if (size <= capacity -
  pruneAmount) break; }\<close>. The iterator is live, but the body only deletes the key it is
  visiting, so the keys still to visit are the tail of the key list. The first component of
  the result is the list of keys passed to \<open>this.values.delete\<close>, in the order of the calls.
\<close>

fun capacity_loop ::
  "'k list \<Rightarrow> ('k, 'v, 'e, 'w) Flycacher \<Rightarrow> 'k list \<times> ('k, 'v, 'e, 'w) Flycacher" where
  "capacity_loop [] s = ([], s)"
| "capacity_loop (key # keys) s =
     (let s' = s\<lparr>values := AList.delete key (values s)\<rparr> in
      if Map_size (values s') \<le> capacity s' - pruneAmount s' then ([key], s')
      else (let (log, s'') = capacity_loop keys s' in (key # log, s'')))"

definition capacity_pass ::
  "('k, 'v, 'e, 'w) Flycacher \<Rightarrow> 'k list \<times> ('k, 'v, 'e, 'w) Flycacher" where
  "capacity_pass s =
     (if Map_size (values s) > capacity s then capacity_loop (map fst (values s)) s
      else ([], s))"

text \<open>
  The TTL loop \<open>for (const [key, value] of this.values) { if (value.entered < expiry) delete
  else { this.oldest = value.entered; break; } }\<close>, over the entries still to visit.
\<close>

fun ttl_loop ::
  "int \<Rightarrow> ('k \<times> 'v Entry) list \<Rightarrow> ('k, 'v, 'e, 'w) Flycacher
     \<Rightarrow> 'k list \<times> ('k, 'v, 'e, 'w) Flycacher" where
  "ttl_loop expiry [] s = ([], s)"
| "ttl_loop expiry ((key, v) # rest) s =
     (if entered v < expiry then
        (let (log, s') = ttl_loop expiry rest (s\<lparr>values := AList.delete key (values s)\<rparr>)
         in (key # log, s'))
      else ([], s\<lparr>oldest := entered v\<rparr>))"

text \<open>
  \<open>if (this.ttl && this.values.size > 0 && this.ttl > 0)\<close>: \<open>null\<close> and \<open>0\<close> are falsy.
  \<open>now1\<close> is the \<open>Date.now()\<close> of \<open>expiry\<close>, \<open>now2\<close> the one that resets \<open>oldest\<close>.
\<close>

definition ttl_pass ::
  "int \<Rightarrow> int \<Rightarrow> ('k, 'v, 'e, 'w) Flycacher \<Rightarrow> 'k list \<times> ('k, 'v, 'e, 'w) Flycacher" where
  "ttl_pass now1 now2 s =
     (case ttl s of
        None \<Rightarrow> ([], s)
      | Some T \<Rightarrow>
          if T \<noteq> 0 \<and> Map_size (values s) > 0 \<and> T > 0 then
            (let expiry = now1 - T;
                 (log, s') = (if oldest s < expiry then ttl_loop expiry (values s) s else ([], s))
             in (log, if Map_size (values s') = 0 then s'\<lparr>oldest := now2\<rparr> else s'))
          else ([], s))"

text \<open>
  \<open>prune_trace\<close> is the method \<open>prune\<close> together with the keys it deleted, in the order of
  the deletions; \<open>prune\<close> is the state it leaves.
\<close>

definition prune_trace ::
  "int \<Rightarrow> int \<Rightarrow> ('k, 'v, 'e, 'w) Flycacher \<Rightarrow> 'k list \<times> ('k, 'v, 'e, 'w) Flycacher" where
  "prune_trace now1 now2 s =
     (let (log1, s1) = capacity_pass s;
          (log2, s2) = ttl_pass now1 now2 s1
      in (log1 @ log2, s2))"

definition prune ::
  "int \<Rightarrow> int \<Rightarrow> ('k, 'v, 'e, 'w) Flycacher \<Rightarrow> ('k, 'v, 'e, 'w) Flycacher" where
  "prune now1 now2 s = snd (prune_trace now1 now2 s)"

subsection \<open>get\<close>

text \<open>
  \<open>get\<close> has two synchronous halves around \<open>await this.missCallback(key)\<close>.
  \<open>get_lookup\<close> is the first: \<open>this.prune()\<close> and \<open>this.values.get(key)\<close>, where
  \<open>undefined\<close> is \<open>None\<close>. \<open>get_store\<close> is the second, \<open>this.values.set\<close> with the
  \<open>Date.now()\<close> read after the callback has resolved (\<open>now3\<close>).
\<close>

definition get_lookup ::
  "int \<Rightarrow> int \<Rightarrow> 'k \<Rightarrow> ('k, 'v, 'e, 'w) Flycacher
     \<Rightarrow> 'v Entry option \<times> ('k, 'v, 'e, 'w) Flycacher" where
  "get_lookup now1 now2 key s =
     (let s1 = prune now1 now2 s in (map_of (values s1) key, s1))"

definition get_store ::
  "int \<Rightarrow> 'k \<Rightarrow> 'v \<Rightarrow> ('k, 'v, 'e, 'w) Flycacher \<Rightarrow> ('k, 'v, 'e, 'w) Flycacher" where
  "get_store now3 key v s =
     s\<lparr>values := AList.update key \<lparr>value = v, entered = now3\<rparr> (values s)\<rparr>"

text \<open>
  \<open>hit\<close> is \<open>undefined\<close> or an \<open>Entry\<close> object, and every object is truthy, so \<open>if (hit)\<close>
  is the case distinction on the lookup. A callback that fails leaves \<open>get\<close> before
  \<open>this.values.set\<close>. The method suspends at \<open>await\<close>: \<open>get\<close> below is a call that
  no other call overlaps, so that \<open>this.values.set\<close> meets the mapping the lookup left.
  Calls that overlap are composed of the two halves in the sessions further down.
\<close>

definition get ::
  "int \<Rightarrow> int \<Rightarrow> int \<Rightarrow> 'k \<Rightarrow> ('k, 'v, 'e, 'w) Flycacher \<Rightarrow> 'w
     \<Rightarrow> ('e + 'v) \<times> ('k, 'v, 'e, 'w) Flycacher \<times> 'w" where
  "get now1 now2 now3 key s w =
     (let (hit, s1) = get_lookup now1 now2 key s in
      case hit of
        Some h \<Rightarrow> (Inr (value h), s1, w)
      | None \<Rightarrow>
          (case missCallback s1 key w of
             (Inl err, w') \<Rightarrow> (Inl err, s1, w')
           | (Inr v, w') \<Rightarrow> (Inr v, get_store now3 key v s1, w')))"

subsection \<open>Sequences of operations\<close>

text \<open>
  A client of the cache calls its four methods one after the other. An operation carries the
  clock readings its \<open>Date.now()\<close> calls see; \<open>exec\<close> runs one operation on the cache and
  the world, \<open>run\<close> a list of them. A \<open>get\<close> whose callback failed has thrown to its
  caller, who goes on with the next operation.
\<close>

datatype 'k op = OpGet 'k int int int | OpDelete 'k | OpClear | OpPrune int int

fun exec ::
  "'k op \<Rightarrow> ('k, 'v, 'e, 'w) Flycacher \<times> 'w \<Rightarrow> ('k, 'v, 'e, 'w) Flycacher \<times> 'w" where
  "exec (OpGet key now1 now2 now3) (s, w) = snd (get now1 now2 now3 key s w)"
| "exec (OpDelete key) (s, w) = (delete key s, w)"
| "exec OpClear (s, w) = (clear s, w)"
| "exec (OpPrune now1 now2) (s, w) = (prune now1 now2 s, w)"

primrec run ::
  "'k op list \<Rightarrow> ('k, 'v, 'e, 'w) Flycacher \<times> 'w \<Rightarrow> ('k, 'v, 'e, 'w) Flycacher \<times> 'w" where
  "run [] c = c"
| "run (x # xs) c = run xs (exec x c)"

text \<open>
  The clock readings of a sequence of operations, in the order they are taken. The clock is
  monotone when they never decrease, starting from the reading of the constructor.
\<close>

fun op_clock :: "'k op \<Rightarrow> int list" where
  "op_clock (OpGet key now1 now2 now3) = [now1, now2, now3]"
| "op_clock (OpDelete key) = []"
| "op_clock OpClear = []"
| "op_clock (OpPrune now1 now2) = [now1, now2]"

definition clock_readings :: "'k op list \<Rightarrow> int list" where
  "clock_readings ops = concat (map op_clock ops)"

definition monotone_clock :: "int \<Rightarrow> 'k op list \<Rightarrow> bool" where
  "monotone_clock t0 ops = sorted (t0 # clock_readings ops)"

subsection \<open>Calls that overlap at the await\<close>

text \<open>
  A \<open>get\<close> that misses calls the callback at once and is then suspended at \<open>await\<close> until
  the promise settles; until then its caller may start other calls. A session is the cache,
  the world and the suspended calls in the order they were suspended, each with its key and
  the outcome its promise settles with. \<open>EvGet\<close> is a call of \<open>get\<close> up to the \<open>await\<close>
  (a hit returns there), \<open>EvResume i\<close> resumes the \<open>i\<close>-th suspended call: a rejected
  promise throws, a resolved one runs \<open>this.values.set\<close> on the cache as it is by then.
  The other three methods are synchronous.
\<close>

record ('k, 'v, 'e, 'w) session =
  cache :: "('k, 'v, 'e, 'w) Flycacher"
  world :: 'w
  suspended :: "('k \<times> ('e + 'v)) list"

datatype 'k event =
  EvGet 'k int int | EvResume nat int | EvDelete 'k | EvClear | EvPrune int int

fun step :: "'k event \<Rightarrow> ('k, 'v, 'e, 'w) session \<Rightarrow> ('k, 'v, 'e, 'w) session" where
  "step (EvGet key now1 now2) ss =
     (case get_lookup now1 now2 key (cache ss) of
        (Some hit, s1) \<Rightarrow> ss\<lparr>cache := s1\<rparr>
      | (None, s1) \<Rightarrow>
          (case missCallback s1 key (world ss) of
             (r, w') \<Rightarrow> ss\<lparr>cache := s1, world := w', suspended := suspended ss @ [(key, r)]\<rparr>))"
| "step (EvResume i now3) ss =
     (if i < length (suspended ss) then
        (case suspended ss ! i of
           (key, Inl err) \<Rightarrow>
             ss\<lparr>suspended := take i (suspended ss) @ drop (Suc i) (suspended ss)\<rparr>
         | (key, Inr v) \<Rightarrow>
             ss\<lparr>cache := get_store now3 key v (cache ss),
                suspended := take i (suspended ss) @ drop (Suc i) (suspended ss)\<rparr>)
      else ss)"
| "step (EvDelete key) ss = ss\<lparr>cache := delete key (cache ss)\<rparr>"
| "step EvClear ss = ss\<lparr>cache := clear (cache ss)\<rparr>"
| "step (EvPrune now1 now2) ss = ss\<lparr>cache := prune now1 now2 (cache ss)\<rparr>"

primrec steps ::
  "'k event list \<Rightarrow> ('k, 'v, 'e, 'w) session \<Rightarrow> ('k, 'v, 'e, 'w) session" where
  "steps [] ss = ss"
| "steps (x # xs) ss = steps xs (step x ss)"

fun event_clock :: "'k event \<Rightarrow> int list" where
  "event_clock (EvGet key now1 now2) = [now1, now2]"
| "event_clock (EvResume i now3) = [now3]"
| "event_clock (EvDelete key) = []"
| "event_clock EvClear = []"
| "event_clock (EvPrune now1 now2) = [now1, now2]"

subsection \<open>Auxiliary notions for the proofs\<close>

text \<open>An entry is expired when the TTL loop would delete it.\<close>

definition expired :: "int \<Rightarrow> ('k \<times> 'v Entry) \<Rightarrow> bool" where
  "expired expiry p = (entered (snd p) < expiry)"

text \<open>
  The invariant of the cache at clock reading \<open>t\<close>: the keys are distinct, the entries are
  in the order of their timestamps, no timestamp is in the future, and \<open>oldest\<close> is below
  every timestamp and not in the future.
\<close>

definition cache_inv :: "int \<Rightarrow> ('k, 'v, 'e, 'w) Flycacher \<Rightarrow> bool" where
  "cache_inv t s =
     (distinct (map fst (values s)) \<and>
      sorted (map (\<lambda>p. entered (snd p)) (values s)) \<and>
      list_all (\<lambda>p. oldest s \<le> entered (snd p) \<and> entered (snd p) \<le> t) (values s) \<and>
      oldest s \<le> t)"

text \<open>
  JavaScript values for the concrete scenarios, with the falsy ones of the language:
  \<open>undefined\<close>, \<open>null\<close>, \<open>false\<close>, \<open>0\<close> and the empty string.
\<close>

datatype jsval = JSUndefined | JSNull | JSBool bool | JSNum int | JSStr string

fun falsy :: "jsval \<Rightarrow> bool" where
  "falsy JSUndefined = True"
| "falsy JSNull = True"
| "falsy (JSBool b) = (\<not> b)"
| "falsy (JSNum n) = (n = 0)"
| "falsy (JSStr t) = (t = [])"

subsection \<open>Concrete scenarios\<close>

text \<open>
  Three configurations: \<open>capacity = 3, prune = 2\<close> without TTL, the same with
  \<open>ttl = 1000\<close>, and \<open>capacity = 3, prune = 1, ttl = 1000\<close>. The world of the scenarios
  is the number of calls the resolver has received. \<open>counting_resolver\<close> resolves every key
  to the key as a string; \<open>flaky_resolver\<close> rejects the key \<open>y\<close> and resolves the others.
\<close>

definition scenario_options :: FlycacherOptions where
  "scenario_options = \<lparr>opt_capacity = 3, opt_prune = 2, opt_ttl = None\<rparr>"

definition ttl_options :: FlycacherOptions where
  "ttl_options = \<lparr>opt_capacity = 3, opt_prune = 2, opt_ttl = Some 1000\<rparr>"

definition both_options :: FlycacherOptions where
  "both_options = \<lparr>opt_capacity = 3, opt_prune = 1, opt_ttl = Some 1000\<rparr>"

definition counting_resolver :: "string \<Rightarrow> nat \<Rightarrow> (string + jsval) \<times> nat" where
  "counting_resolver key calls = (Inr (JSStr key), Suc calls)"

definition flaky_resolver :: "string \<Rightarrow> nat \<Rightarrow> (string + jsval) \<times> nat" where
  "flaky_resolver key calls =
     (if key = ''y'' then Inl ''unreachable'' else Inr (JSStr key), Suc calls)"

text \<open>The cache after \<open>get\<close> of \<open>a, b, c, d\<close> at the times 1, 2, 3, 4, without TTL.\<close>

definition abcd :: "(string, jsval, string, nat) Flycacher" where
  "abcd = fst (run [OpGet ''a'' 1 1 1, OpGet ''b'' 2 2 2, OpGet ''c'' 3 3 3, OpGet ''d'' 4 4 4]
                 (construct counting_resolver scenario_options 0, 0))"

text \<open>
  The cache with \<open>ttl = 1000\<close> after \<open>get\<close> of \<open>x\<close> at time 0, and the cache with
  \<open>prune = 1, ttl = 1000\<close> after \<open>get\<close> of \<open>a, b, c, d\<close> at the times 0, 100, 200, 900.
\<close>

definition stale_x :: "(string, jsval, string, nat) Flycacher" where
  "stale_x = fst (run [OpGet ''x'' 0 0 0] (construct flaky_resolver ttl_options 0, 0))"

definition mixed :: "(string, jsval, string, nat) Flycacher" where
  "mixed = fst (run [OpGet ''a'' 0 0 0, OpGet ''b'' 100 100 100, OpGet ''c'' 200 200 200,
                     OpGet ''d'' 900 900 900]
                  (construct counting_resolver both_options 0, 0))"

text \<open>
  Two calls of \<open>get\<close> for the key \<open>k\<close> on a new cache with \<open>ttl = 1000\<close>, the second
  made at time 1 while the first is suspended. \<open>versioned_resolver\<close> resolves to the number
  of calls it had received before, so the first call resolves to 0 and the second to 1. The
  first call resumes at time 10, a \<open>get\<close> of \<open>b\<close> is made and resumes at time 20, and the
  second call for \<open>k\<close> resumes at time 501.
\<close>

definition versioned_resolver :: "string \<Rightarrow> nat \<Rightarrow> (string + jsval) \<times> nat" where
  "versioned_resolver key calls = (Inr (JSNum (int calls)), Suc calls)"

definition fresh_session :: "(string, jsval, string, nat) session" where
  "fresh_session =
     \<lparr>cache = construct versioned_resolver ttl_options 0, world = 0, suspended = []\<rparr>"

definition overlapping_gets :: "string event list" where
  "overlapping_gets =
     [EvGet ''k'' 0 0, EvGet ''k'' 1 1, EvResume 0 10,
      EvGet ''b'' 20 20, EvResume 1 20, EvResume 0 501]"

text \<open>A cache that holds the five falsy values of JavaScript.\<close>

definition falsy_cache :: "(string, jsval, string, nat) Flycacher" where
  "falsy_cache =
     \<lparr> values = [(''zero'', \<lparr>value = JSNum 0, entered = 1\<rparr>),
                 (''empty'', \<lparr>value = JSStr [], entered = 2\<rparr>),
                 (''false'', \<lparr>value = JSBool False, entered = 3\<rparr>),
                 (''null'', \<lparr>value = JSNull, entered = 4\<rparr>),
                 (''undefined'', \<lparr>value = JSUndefined, entered = 5\<rparr>)],
       capacity = 10, pruneAmount = 2, ttl = Some 1000, oldest = 0,
       missCallback = counting_resolver \<rparr>"


section \<open>get, unfolded\<close>

lemma get_unfold:
  "get now1 now2 now3 key s w =
     (let s1 = prune now1 now2 s in
      case map_of (values s1) key of
        Some hit \<Rightarrow> (Inr (value hit), s1, w)
      | None \<Rightarrow>
          (case missCallback s1 key w of
             (Inl err, w') \<Rightarrow> (Inl err, s1, w')
           | (Inr v, w') \<Rightarrow>
               (Inr v, s1\<lparr>values := AList.update key \<lparr>value = v, entered = now3\<rparr> (values s1)\<rparr>, w')))"
  by (simp add: get_def get_lookup_def get_store_def Let_def
        split: option.splits prod.splits sum.splits)

section \<open>The two loops of prune\<close>

lemma delete_head:
  "k \<notin> fst ` set m \<Longrightarrow> AList.delete k ((k, e) # m) = m"
  by simp

lemma update_fresh:
  "map_of m k = None \<Longrightarrow> AList.update k v m = m @ [(k, v)]"
  by (induction m) (auto split: if_splits)

text \<open>On a map with distinct keys the capacity loop removes a prefix of the entries.\<close>

lemma capacity_loop_drop:
  "distinct (map fst (values s)) \<Longrightarrow>
   \<exists>n. capacity_loop (map fst (values s)) s =
          (map fst (take n (values s)), s\<lparr>values := drop n (values s)\<rparr>)"
proof (induction "values s" arbitrary: s)
  case Nil
  then show ?case by simp
next
  case (Cons p m)
  obtain k e where p: "p = (k, e)" by (cases p)
  let ?s' = "s\<lparr>values := m\<rparr>"
  from Cons.hyps(2) p have vs: "values s = (k, e) # m" by simp
  with Cons.prems have k: "k \<notin> fst ` set m" and d: "distinct (map fst m)" by simp_all
  have del: "AList.delete k (values s) = m" using vs k by (simp add: delete_head)
  show ?case
  proof (cases "Map_size m \<le> capacity s - pruneAmount s")
    case True
    have "capacity_loop (map fst (values s)) s =
            (map fst (take 1 (values s)), s\<lparr>values := drop 1 (values s)\<rparr>)"
      using True vs del by simp
    then show ?thesis by blast
  next
    case False
    have "values ?s' = m" by simp
    with Cons.hyps(1)[of ?s'] d obtain n where
      n: "capacity_loop (map fst m) ?s' = (map fst (take n m), ?s'\<lparr>values := drop n m\<rparr>)"
      by auto
    have "capacity_loop (map fst (values s)) s =
            (map fst (take (Suc n) (values s)), s\<lparr>values := drop (Suc n) (values s)\<rparr>)"
      using False vs del n by simp
    then show ?thesis by blast
  qed
qed

text \<open>
  When the size is above the target \<open>capacity - pruneAmount\<close>, the loop removes exactly the
  difference (everything, when the target is negative).
\<close>

lemma capacity_loop_exact:
  "distinct (map fst (values s)) \<Longrightarrow>
   Map_size (values s) > capacity s - pruneAmount s \<Longrightarrow>
   capacity_loop (map fst (values s)) s =
     (map fst (take (nat (Map_size (values s) - (capacity s - pruneAmount s))) (values s)),
      s\<lparr>values := drop (nat (Map_size (values s) - (capacity s - pruneAmount s))) (values s)\<rparr>)"
proof (induction "values s" arbitrary: s)
  case Nil
  then show ?case by simp
next
  case (Cons p m)
  obtain k e where p: "p = (k, e)" by (cases p)
  let ?s' = "s\<lparr>values := m\<rparr>"
  from Cons.hyps(2) p have vs: "values s = (k, e) # m" by simp
  with Cons.prems have k: "k \<notin> fst ` set m" and d: "distinct (map fst m)" by simp_all
  have del: "AList.delete k (values s) = m" using vs k by (simp add: delete_head)
  have big: "int (length m) + 1 > capacity s - pruneAmount s"
    using Cons.prems(2) vs by (simp add: Map_size_def)
  show ?case
  proof (cases "Map_size m \<le> capacity s - pruneAmount s")
    case True
    then have "nat (Map_size (values s) - (capacity s - pruneAmount s)) = 1"
      using big vs by (simp add: Map_size_def)
    then show ?thesis using True vs del by simp
  next
    case False
    have "values ?s' = m" by simp
    with Cons.hyps(1)[of ?s'] d False have
      n: "capacity_loop (map fst m) ?s' =
           (map fst (take (nat (Map_size m - (capacity s - pruneAmount s))) m),
            ?s'\<lparr>values := drop (nat (Map_size m - (capacity s - pruneAmount s))) m\<rparr>)"
      by auto
    have "nat (Map_size (values s) - (capacity s - pruneAmount s))
            = Suc (nat (Map_size m - (capacity s - pruneAmount s)))"
      using False vs by (simp add: Map_size_def)
    then show ?thesis using False vs del n by simp
  qed
qed

text \<open>
  On a map with distinct keys the TTL loop removes the longest prefix of expired entries and
  moves \<open>oldest\<close> to the timestamp of the first entry it keeps.
\<close>

lemma ttl_loop_exact:
  "distinct (map fst (values s)) \<Longrightarrow>
   ttl_loop expiry (values s) s =
     (map fst (takeWhile (expired expiry) (values s)),
      s\<lparr>values := dropWhile (expired expiry) (values s),
        oldest := (case dropWhile (expired expiry) (values s) of
                     [] \<Rightarrow> oldest s | p # _ \<Rightarrow> entered (snd p))\<rparr>)"
proof (induction "values s" arbitrary: s)
  case Nil
  then show ?case by simp
next
  case (Cons p m)
  obtain k e where p: "p = (k, e)" by (cases p)
  let ?s' = "s\<lparr>values := m\<rparr>"
  from Cons.hyps(2) p have vs: "values s = (k, e) # m" by simp
  with Cons.prems have k: "k \<notin> fst ` set m" and d: "distinct (map fst m)" by simp_all
  have del: "AList.delete k (values s) = m" using vs k by (simp add: delete_head)
  show ?case
  proof (cases "entered e < expiry")
    case True
    have "values ?s' = m" by simp
    with Cons.hyps(1)[of ?s'] d have
      "ttl_loop expiry m ?s' =
        (map fst (takeWhile (expired expiry) m),
         ?s'\<lparr>values := dropWhile (expired expiry) m,
           oldest := (case dropWhile (expired expiry) m of
                     [] \<Rightarrow> oldest ?s' | p # _ \<Rightarrow> entered (snd p))\<rparr>)"
      by auto
    then show ?thesis using True vs del by (simp add: expired_def cong: list.case_cong)
  next
    case False
    then show ?thesis using vs by (simp add: expired_def)
  qed
qed

lemma capacity_pass_drop:
  "distinct (map fst (values s)) \<Longrightarrow>
   \<exists>n. capacity_pass s = (map fst (take n (values s)), s\<lparr>values := drop n (values s)\<rparr>)"
proof (cases "Map_size (values s) > capacity s")
  case True
  assume "distinct (map fst (values s))"
  from capacity_loop_drop[OF this] True show ?thesis by (simp add: capacity_pass_def)
next
  case False
  then have "capacity_pass s = (map fst (take 0 (values s)), s\<lparr>values := drop 0 (values s)\<rparr>)"
    by (simp add: capacity_pass_def)
  then show ?thesis by blast
qed

lemma capacity_pass_exact:
  assumes "distinct (map fst (values s))" and "0 \<le> pruneAmount s"
  shows "capacity_pass s =
     (if Map_size (values s) > capacity s then
        (map fst (take (nat (Map_size (values s) - (capacity s - pruneAmount s))) (values s)),
         s\<lparr>values := drop (nat (Map_size (values s) - (capacity s - pruneAmount s))) (values s)\<rparr>)
      else ([], s))"
proof (cases "Map_size (values s) > capacity s")
  case True
  with assms(2) have "Map_size (values s) > capacity s - pruneAmount s" by simp
  from capacity_loop_exact[OF assms(1) this] True show ?thesis by (simp add: capacity_pass_def)
next
  case False
  then show ?thesis by (simp add: capacity_pass_def)
qed

lemma ttl_pass_skip:
  "ttl s = None \<or> (\<exists>T. ttl s = Some T \<and> (T \<le> 0 \<or> values s = [] \<or> now1 - T \<le> oldest s)) \<Longrightarrow>
   ttl_pass now1 now2 s = ([], s)"
  by (auto simp: ttl_pass_def Map_size_def)

lemma ttl_pass_scan:
  assumes "distinct (map fst (values s))" and "ttl s = Some T" and "0 < T"
    and "values s \<noteq> []" and "oldest s < now1 - T"
  shows "ttl_pass now1 now2 s =
     (map fst (takeWhile (expired (now1 - T)) (values s)),
      s\<lparr>values := dropWhile (expired (now1 - T)) (values s),
        oldest := (case dropWhile (expired (now1 - T)) (values s) of
                     [] \<Rightarrow> now2 | p # _ \<Rightarrow> entered (snd p))\<rparr>)"
proof -
  define d where "d = dropWhile (expired (now1 - T)) (values s)"
  define s' where "s' = s\<lparr>values := d, oldest := (case d of [] \<Rightarrow> oldest s | p # _ \<Rightarrow> entered (snd p))\<rparr>"
  have loop: "ttl_loop (now1 - T) (values s) s =
                (map fst (takeWhile (expired (now1 - T)) (values s)), s')"
    unfolding s'_def d_def by (rule ttl_loop_exact[OF assms(1)])
  have pass: "ttl_pass now1 now2 s =
     (map fst (takeWhile (expired (now1 - T)) (values s)),
      if Map_size (values s') = 0 then s'\<lparr>oldest := now2\<rparr> else s')"
    using assms(2-5) loop by (simp add: ttl_pass_def Map_size_def Let_def)
  have "(if Map_size (values s') = 0 then s'\<lparr>oldest := now2\<rparr> else s') =
          s\<lparr>values := d, oldest := (case d of [] \<Rightarrow> now2 | p # _ \<Rightarrow> entered (snd p))\<rparr>"
    by (cases d) (simp_all add: s'_def Map_size_def)
  with pass show ?thesis by (simp add: d_def)
qed

lemma ttl_pass_drop:
  assumes "distinct (map fst (values s))"
  shows "\<exists>n t. ttl_pass now1 now2 s =
           (map fst (take n (values s)), s\<lparr>values := drop n (values s), oldest := t\<rparr>)"
proof (cases "ttl s = None \<or> (\<exists>T. ttl s = Some T \<and> (T \<le> 0 \<or> values s = [] \<or> now1 - T \<le> oldest s))")
  case True
  from ttl_pass_skip[OF this] have
    "ttl_pass now1 now2 s =
       (map fst (take 0 (values s)), s\<lparr>values := drop 0 (values s), oldest := oldest s\<rparr>)"
    by simp
  then show ?thesis by blast
next
  case False
  then obtain T where T: "ttl s = Some T" "0 < T" "values s \<noteq> []" "oldest s < now1 - T"
    by (cases "ttl s") auto
  let ?n = "length (takeWhile (expired (now1 - T)) (values s))"
  have "ttl_pass now1 now2 s =
     (map fst (take ?n (values s)),
      s\<lparr>values := drop ?n (values s),
        oldest := (case dropWhile (expired (now1 - T)) (values s) of
                     [] \<Rightarrow> now2 | p # _ \<Rightarrow> entered (snd p))\<rparr>)"
    using ttl_pass_scan[OF assms T, of now2]
    by (simp add: takeWhile_eq_take[symmetric] dropWhile_eq_drop[symmetric])
  then show ?thesis by blast
qed

lemma distinct_drop_keys:
  "distinct (map fst m) \<Longrightarrow> distinct (map fst (drop n m))"
  by (simp add: drop_map[symmetric])

lemma prune_trace_drop:
  assumes "distinct (map fst (values s))"
  shows "\<exists>n t. prune_trace now1 now2 s =
           (map fst (take n (values s)), s\<lparr>values := drop n (values s), oldest := t\<rparr>)"
proof -
  from capacity_pass_drop[OF assms] obtain n where
    n: "capacity_pass s = (map fst (take n (values s)), s\<lparr>values := drop n (values s)\<rparr>)" ..
  let ?s1 = "s\<lparr>values := drop n (values s)\<rparr>"
  have "distinct (map fst (values ?s1))" using assms by (simp add: distinct_drop_keys)
  from ttl_pass_drop[OF this, of now1 now2] obtain m t where
    m: "ttl_pass now1 now2 ?s1 =
          (map fst (take m (values ?s1)), ?s1\<lparr>values := drop m (values ?s1), oldest := t\<rparr>)"
    by blast
  have "map fst (take n (values s)) @ map fst (take m (drop n (values s)))
          = map fst (take (n + m) (values s))"
    by (simp add: take_add)
  then have "prune_trace now1 now2 s =
     (map fst (take (n + m) (values s)), s\<lparr>values := drop (n + m) (values s), oldest := t\<rparr>)"
    using n m by (simp add: prune_trace_def add.commute)
  then show ?thesis by blast
qed

section \<open>What prune keeps\<close>

lemma capacity_loop_config:
  "capacity (snd (capacity_loop ks s)) = capacity s \<and>
   pruneAmount (snd (capacity_loop ks s)) = pruneAmount s \<and>
   ttl (snd (capacity_loop ks s)) = ttl s \<and>
   oldest (snd (capacity_loop ks s)) = oldest s \<and>
   missCallback (snd (capacity_loop ks s)) = missCallback s"
  by (induction ks arbitrary: s) (simp_all add: Let_def case_prod_beta)

lemma ttl_loop_config:
  "capacity (snd (ttl_loop expiry it s)) = capacity s \<and>
   pruneAmount (snd (ttl_loop expiry it s)) = pruneAmount s \<and>
   ttl (snd (ttl_loop expiry it s)) = ttl s \<and>
   missCallback (snd (ttl_loop expiry it s)) = missCallback s"
  by (induction expiry it s rule: ttl_loop.induct) (simp_all add: Let_def case_prod_beta)

lemma capacity_pass_config:
  "capacity (snd (capacity_pass s)) = capacity s \<and>
   pruneAmount (snd (capacity_pass s)) = pruneAmount s \<and>
   ttl (snd (capacity_pass s)) = ttl s \<and>
   oldest (snd (capacity_pass s)) = oldest s \<and>
   missCallback (snd (capacity_pass s)) = missCallback s"
  by (simp add: capacity_pass_def capacity_loop_config)

lemma ttl_pass_config:
  "capacity (snd (ttl_pass now1 now2 s)) = capacity s \<and>
   pruneAmount (snd (ttl_pass now1 now2 s)) = pruneAmount s \<and>
   ttl (snd (ttl_pass now1 now2 s)) = ttl s \<and>
   missCallback (snd (ttl_pass now1 now2 s)) = missCallback s"
  by (simp add: ttl_pass_def Let_def case_prod_beta ttl_loop_config split: option.splits)

lemma prune_snd:
  "prune now1 now2 s = snd (ttl_pass now1 now2 (snd (capacity_pass s)))"
  by (simp add: prune_def prune_trace_def case_prod_beta)

lemma prune_config:
  "capacity (prune now1 now2 s) = capacity s \<and>
   pruneAmount (prune now1 now2 s) = pruneAmount s \<and>
   ttl (prune now1 now2 s) = ttl s \<and>
   missCallback (prune now1 now2 s) = missCallback s"
  by (simp add: prune_snd ttl_pass_config capacity_pass_config)

lemma subseq_delete: "subseq (AList.delete k m) m"
  by (simp add: AList.delete_eq)

lemma capacity_loop_subseq: "subseq (values (snd (capacity_loop ks s))) (values s)"
proof (induction ks arbitrary: s)
  case Nil
  then show ?case by simp
next
  case (Cons k ks)
  let ?s' = "s\<lparr>values := AList.delete k (values s)\<rparr>"
  have "subseq (values (snd (capacity_loop ks ?s'))) (values ?s')" by (rule Cons.IH)
  moreover have "subseq (values ?s') (values s)" by (simp add: subseq_delete)
  ultimately have "subseq (values (snd (capacity_loop ks ?s'))) (values s)"
    by (rule subseq_order.trans)
  then show ?case by (simp add: Let_def subseq_delete case_prod_beta)
qed

lemma ttl_loop_subseq: "subseq (values (snd (ttl_loop expiry it s))) (values s)"
proof (induction expiry it s rule: ttl_loop.induct)
  case (1 expiry s)
  then show ?case by simp
next
  case (2 expiry key v rest s)
  let ?s' = "s\<lparr>values := AList.delete key (values s)\<rparr>"
  show ?case
  proof (cases "entered v < expiry")
    case True
    from 2[OF True] have "subseq (values (snd (ttl_loop expiry rest ?s'))) (values ?s')" .
    moreover have "subseq (values ?s') (values s)" by (simp add: subseq_delete)
    ultimately have "subseq (values (snd (ttl_loop expiry rest ?s'))) (values s)"
      by (rule subseq_order.trans)
    with True show ?thesis by (simp add: case_prod_beta)
  next
    case False
    then show ?thesis by simp
  qed
qed

lemma capacity_pass_subseq: "subseq (values (snd (capacity_pass s))) (values s)"
  by (simp add: capacity_pass_def capacity_loop_subseq)

lemma ttl_pass_subseq: "subseq (values (snd (ttl_pass now1 now2 s))) (values s)"
proof -
  have "values (snd (ttl_pass now1 now2 s)) = values s \<or>
        (\<exists>e. values (snd (ttl_pass now1 now2 s)) = values (snd (ttl_loop e (values s) s)))"
    by (auto simp: ttl_pass_def Let_def case_prod_beta split: option.splits)
  then show ?thesis using ttl_loop_subseq by (metis subseq_order.order_refl)
qed

section \<open>The invariant of reachable caches\<close>

lemma cache_inv_mono: "cache_inv t s \<Longrightarrow> t \<le> t' \<Longrightarrow> cache_inv t' s"
  by (auto simp: cache_inv_def list_all_iff)

lemma cache_inv_construct: "cache_inv now (construct cb options now)"
  by (simp add: cache_inv_def construct_def)

lemma cache_inv_drop:
  assumes "cache_inv t s"
  shows "cache_inv t (s\<lparr>values := drop n (values s)\<rparr>)"
proof -
  have "sorted (map (\<lambda>p. entered (snd p)) (drop n (values s)))"
    using assms by (simp add: cache_inv_def drop_map[symmetric])
  moreover have "distinct (map fst (drop n (values s)))"
    using assms by (simp add: cache_inv_def distinct_drop_keys)
  moreover have "list_all (\<lambda>p. oldest s \<le> entered (snd p) \<and> entered (snd p) \<le> t)
                   (drop n (values s))"
    using assms by (auto simp: cache_inv_def list_all_iff dest: in_set_dropD)
  ultimately show ?thesis using assms by (simp add: cache_inv_def)
qed

lemma cache_inv_capacity_pass:
  assumes "cache_inv t s"
  shows "cache_inv t (snd (capacity_pass s))"
proof -
  from assms have "distinct (map fst (values s))" by (simp add: cache_inv_def)
  from capacity_pass_drop[OF this] obtain n where
    "capacity_pass s = (map fst (take n (values s)), s\<lparr>values := drop n (values s)\<rparr>)" ..
  then show ?thesis using cache_inv_drop[OF assms, of n] by simp
qed

lemma sorted_dropWhile_bound:
  assumes "sorted (map f xs)" and "p \<in> set (dropWhile (\<lambda>q. f q < e) xs)"
  shows "(e::int) \<le> f p"
proof (cases "dropWhile (\<lambda>q. f q < e) xs")
  case Nil
  with assms(2) show ?thesis by simp
next
  case (Cons h r)
  then have h: "\<not> f h < e" by (metis hd_dropWhile list.sel(1) list.distinct(1))
  have "sorted (map f (dropWhile (\<lambda>q. f q < e) xs))"
    using assms(1) by (simp add: dropWhile_eq_drop drop_map[symmetric])
  with Cons assms(2) have "f h \<le> f p" by auto
  with h show ?thesis by simp
qed

lemma sorted_dropWhile_head:
  assumes "sorted (map f xs)" and "dropWhile P xs = h # r" and "p \<in> set (h # r)"
  shows "(f h :: int) \<le> f p"
proof -
  have "sorted (map f (dropWhile P xs))"
    using assms(1) by (simp add: dropWhile_eq_drop drop_map[symmetric])
  with assms(2,3) show ?thesis by auto
qed

lemma ttl_pass_fresh:
  assumes inv: "cache_inv t s" and T: "ttl s = Some T" "0 < T"
    and p: "p \<in> set (values (snd (ttl_pass now1 now2 s)))"
  shows "now1 - T \<le> entered (snd p)"
proof (cases "values s = [] \<or> now1 - T \<le> oldest s")
  case True
  then have "ttl_pass now1 now2 s = ([], s)" using T by (intro ttl_pass_skip) simp
  with p True inv show ?thesis by (auto simp: cache_inv_def list_all_iff)
next
  case False
  from inv have d: "distinct (map fst (values s))"
    and so: "sorted (map (\<lambda>p. entered (snd p)) (values s))" by (simp_all add: cache_inv_def)
  from False have "values s \<noteq> []" "oldest s < now1 - T" by auto
  from ttl_pass_scan[OF d T this, of now2] p
  have "p \<in> set (dropWhile (expired (now1 - T)) (values s))" by simp
  then have "p \<in> set (dropWhile (\<lambda>q. entered (snd q) < now1 - T) (values s))"
    by (simp add: expired_def[abs_def])
  from sorted_dropWhile_bound[OF so this] show ?thesis .
qed

lemma cache_inv_ttl_pass:
  assumes inv: "cache_inv t s" and le: "t \<le> now2"
  shows "cache_inv now2 (snd (ttl_pass now1 now2 s))"
proof (cases "ttl s = None \<or> (\<exists>T. ttl s = Some T \<and> (T \<le> 0 \<or> values s = [] \<or> now1 - T \<le> oldest s))")
  case True
  from ttl_pass_skip[OF this] show ?thesis using cache_inv_mono[OF inv le] by simp
next
  case False
  then obtain T where T: "ttl s = Some T" "0 < T" and ne: "values s \<noteq> []" "oldest s < now1 - T"
    by (cases "ttl s") auto
  from inv have d: "distinct (map fst (values s))"
    and so: "sorted (map (\<lambda>p. entered (snd p)) (values s))"
    and bd: "\<forall>p\<in>set (values s). entered (snd p) \<le> t"
    by (simp_all add: cache_inv_def list_all_iff)
  define dw where "dw = dropWhile (expired (now1 - T)) (values s)"
  define o' where "o' = (case dw of [] \<Rightarrow> now2 | p # _ \<Rightarrow> entered (snd p))"
  have res: "snd (ttl_pass now1 now2 s) = s\<lparr>values := dw, oldest := o'\<rparr>"
    using ttl_pass_scan[OF d T ne, of now2] by (simp add: dw_def o'_def)
  have sub: "set dw \<subseteq> set (values s)" unfolding dw_def by (auto dest: set_dropWhileD)
  have 1: "distinct (map fst dw)"
    unfolding dw_def using d by (simp add: dropWhile_eq_drop distinct_drop_keys)
  have 2: "sorted (map (\<lambda>p. entered (snd p)) dw)"
    unfolding dw_def using so by (simp add: dropWhile_eq_drop drop_map[symmetric])
  have 3: "\<forall>p\<in>set dw. o' \<le> entered (snd p)"
  proof (cases dw)
    case Nil
    then show ?thesis by simp
  next
    case (Cons h r)
    then have "o' = entered (snd h)" by (simp add: o'_def)
    moreover have "\<forall>p\<in>set (h # r). entered (snd h) \<le> entered (snd p)"
      using sorted_dropWhile_head[OF so, of "expired (now1 - T)" h r] Cons
      by (simp add: dw_def)
    ultimately show ?thesis using Cons by simp
  qed
  have 4: "\<forall>p\<in>set dw. entered (snd p) \<le> now2" using sub bd le by fastforce
  have 5: "o' \<le> now2"
  proof (cases dw)
    case Nil
    then show ?thesis by (simp add: o'_def)
  next
    case (Cons h r)
    then have "h \<in> set dw" by simp
    with 4 Cons show ?thesis by (simp add: o'_def)
  qed
  show ?thesis unfolding res using 1 2 3 4 5 by (simp add: cache_inv_def list_all_iff)
qed

lemma cache_inv_prune:
  "cache_inv t s \<Longrightarrow> t \<le> now2 \<Longrightarrow> cache_inv now2 (prune now1 now2 s)"
  unfolding prune_snd by (rule cache_inv_ttl_pass[OF cache_inv_capacity_pass])

lemma prune_fresh:
  assumes "cache_inv t s" and "ttl s = Some T" and "0 < T"
    and "p \<in> set (values (prune now1 now2 s))"
  shows "now1 - T \<le> entered (snd p)"
proof -
  have "cache_inv t (snd (capacity_pass s))" by (rule cache_inv_capacity_pass[OF assms(1)])
  moreover have "ttl (snd (capacity_pass s)) = Some T"
    using assms(2) by (simp add: capacity_pass_config)
  ultimately show ?thesis using assms(3,4) unfolding prune_snd by (rule ttl_pass_fresh)
qed

lemma cache_inv_clear: "cache_inv t s \<Longrightarrow> cache_inv t (clear s)"
  by (simp add: cache_inv_def clear_def)

lemma cache_inv_delete:
  assumes "cache_inv t s"
  shows "cache_inv t (delete key s)"
proof -
  have eq: "AList.delete key (values s) = filter (\<lambda>p. fst p \<noteq> key) (values s)"
    by (auto simp: AList.delete_eq intro: filter_cong)
  have "sorted (map (\<lambda>p. entered (snd p)) (filter (\<lambda>p. fst p \<noteq> key) (values s)))"
    using assms by (simp add: cache_inv_def sorted_map sorted_wrt_filter)
  moreover have "distinct (map fst (AList.delete key (values s)))"
    using assms by (simp add: cache_inv_def distinct_delete)
  ultimately show ?thesis
    using assms by (auto simp: cache_inv_def delete_def eq list_all_iff)
qed

lemma cache_inv_append:
  assumes inv: "cache_inv t s" and le: "t \<le> now3" and fresh: "map_of (values s) key = None"
  shows "cache_inv now3 (s\<lparr>values := AList.update key \<lparr>value = v, entered = now3\<rparr> (values s)\<rparr>)"
proof -
  have up: "AList.update key \<lparr>value = v, entered = now3\<rparr> (values s)
              = values s @ [(key, \<lparr>value = v, entered = now3\<rparr>)]"
    by (rule update_fresh[OF fresh])
  from fresh have nk: "key \<notin> fst ` set (values s)" by (simp add: map_of_eq_None_iff)
  from inv have bd: "\<forall>p\<in>set (values s). entered (snd p) \<le> now3"
    using le by (fastforce simp: cache_inv_def list_all_iff)
  have "sorted (map (\<lambda>p. entered (snd p)) (values s @ [(key, \<lparr>value = v, entered = now3\<rparr>)]))"
    using inv bd by (simp add: cache_inv_def sorted_append)
  then show ?thesis unfolding up using inv nk le bd
    by (auto simp: cache_inv_def list_all_iff)
qed

lemma cache_inv_get:
  assumes inv: "cache_inv t s" and le: "t \<le> now2" "now2 \<le> now3"
  shows "cache_inv now3 (fst (snd (get now1 now2 now3 key s w)))"
proof -
  have p: "cache_inv now2 (prune now1 now2 s)" by (rule cache_inv_prune[OF inv le(1)])
  show ?thesis
  proof (cases "map_of (values (prune now1 now2 s)) key")
    case (Some hit)
    then show ?thesis using cache_inv_mono[OF p le(2)] by (simp add: get_unfold)
  next
    case None
    obtain r w' where r: "missCallback (prune now1 now2 s) key w = (r, w')" by force
    show ?thesis
    proof (cases r)
      case (Inl err)
      with None r show ?thesis using cache_inv_mono[OF p le(2)] by (simp add: get_unfold)
    next
      case (Inr v)
      with None r show ?thesis using cache_inv_append[OF p le(2) None, of v]
        by (simp add: get_unfold Let_def)
    qed
  qed
qed

lemma cache_inv_exec:
  assumes "cache_inv t s" and "sorted (t # op_clock x)"
  shows "cache_inv (last (t # op_clock x)) (fst (exec x (s, w)))"
proof (cases x)
  case (OpGet key now1 now2 now3)
  with assms(2) have "t \<le> now2" "now2 \<le> now3" by auto
  from cache_inv_get[OF assms(1) this] OpGet show ?thesis by simp
next
  case (OpDelete key)
  with assms(1) show ?thesis by (simp add: cache_inv_delete)
next
  case OpClear
  with assms(1) show ?thesis by (simp add: cache_inv_clear)
next
  case (OpPrune now1 now2)
  with assms(2) have "t \<le> now2" by auto
  from cache_inv_prune[OF assms(1) this] OpPrune show ?thesis by simp
qed

lemma sorted_clock_split:
  assumes "sorted (t # xs @ ys)"
  shows "sorted (t # xs)" and "sorted (last (t # xs) # ys)"
proof -
  from assms show "sorted (t # xs)" by (auto simp: sorted_append)
  have "last (t # xs) \<in> set (t # xs)" by (rule last_in_set) simp
  with assms show "sorted (last (t # xs) # ys)" by (auto simp: sorted_append)
qed

lemma last_clock_append: "last (last (t # xs) # ys) = last (t # xs @ ys)"
  by (cases ys) simp_all

lemma cache_inv_run:
  "cache_inv t s \<Longrightarrow> sorted (t # clock_readings ops) \<Longrightarrow>
   cache_inv (last (t # clock_readings ops)) (fst (run ops (s, w)))"
proof (induction ops arbitrary: t s w)
  case Nil
  then show ?case by (simp add: clock_readings_def)
next
  case (Cons x xs)
  from Cons.prems(2) have so: "sorted (t # op_clock x @ clock_readings xs)"
    by (simp add: clock_readings_def)
  obtain s' w' where e: "exec x (s, w) = (s', w')" by force
  from cache_inv_exec[OF Cons.prems(1) sorted_clock_split(1)[OF so], of w] e
  have "cache_inv (last (t # op_clock x)) s'" by simp
  from Cons.IH[OF this sorted_clock_split(2)[OF so], of w'] e
  show ?case by (simp add: clock_readings_def last_clock_append del: last.simps)
qed

lemma cache_inv_reachable:
  "monotone_clock t0 ops \<Longrightarrow>
   cache_inv (last (t0 # clock_readings ops)) (fst (run ops (construct cb options t0, w)))"
  unfolding monotone_clock_def by (rule cache_inv_run[OF cache_inv_construct])

section \<open>Sizes, repeated pruning and what a run keeps\<close>

lemma capacity_pass_idle:
  "Map_size (values s) \<le> capacity s \<or> values s = [] \<Longrightarrow> capacity_pass s = ([], s)"
  by (auto simp: capacity_pass_def)

lemma capacity_pass_settled:
  assumes "distinct (map fst (values s))" and "0 \<le> pruneAmount s"
  shows "Map_size (values (snd (capacity_pass s))) \<le> capacity s \<or>
         values (snd (capacity_pass s)) = []"
proof (cases "Map_size (values s) > capacity s")
  case True
  show ?thesis
  proof (cases "0 \<le> capacity s - pruneAmount s")
    case True
    with \<open>Map_size (values s) > capacity s\<close> assms(2) show ?thesis
      unfolding capacity_pass_exact[OF assms] by (simp add: Map_size_def)
  next
    case False
    with \<open>Map_size (values s) > capacity s\<close> show ?thesis
      unfolding capacity_pass_exact[OF assms] by (simp add: Map_size_def)
  qed
next
  case False
  then show ?thesis by (simp add: capacity_pass_def)
qed

lemma ttl_pass_settled:
  assumes "distinct (map fst (values s))"
  shows "ttl (snd (ttl_pass now1 now2 s)) = None \<or>
         (\<exists>T. ttl (snd (ttl_pass now1 now2 s)) = Some T \<and>
              (T \<le> 0 \<or> values (snd (ttl_pass now1 now2 s)) = [] \<or>
               now1 - T \<le> oldest (snd (ttl_pass now1 now2 s))))"
proof (cases "ttl s = None \<or> (\<exists>T. ttl s = Some T \<and> (T \<le> 0 \<or> values s = [] \<or> now1 - T \<le> oldest s))")
  case True
  from ttl_pass_skip[OF this] True show ?thesis by simp
next
  case False
  then obtain T where T: "ttl s = Some T" "0 < T" and ne: "values s \<noteq> []" "oldest s < now1 - T"
    by (cases "ttl s") auto
  define dw where "dw = dropWhile (expired (now1 - T)) (values s)"
  have res: "snd (ttl_pass now1 now2 s) =
               s\<lparr>values := dw, oldest := (case dw of [] \<Rightarrow> now2 | p # _ \<Rightarrow> entered (snd p))\<rparr>"
    using ttl_pass_scan[OF assms T ne, of now2] by (simp add: dw_def)
  show ?thesis
  proof (cases dw)
    case Nil
    with res T show ?thesis by simp
  next
    case (Cons h r)
    then have "\<not> expired (now1 - T) h"
      unfolding dw_def by (metis hd_dropWhile list.sel(1) list.distinct(1))
    with res T Cons show ?thesis by (simp add: expired_def)
  qed
qed

lemma prune_distinct:
  assumes "distinct (map fst (values s))"
  shows "distinct (map fst (values (prune now1 now2 s)))"
proof -
  from prune_trace_drop[OF assms, of now1 now2] obtain n t where
    "prune_trace now1 now2 s =
       (map fst (take n (values s)), s\<lparr>values := drop n (values s), oldest := t\<rparr>)" by blast
  then show ?thesis using assms by (simp add: prune_def distinct_drop_keys)
qed

lemma capacity_pass_distinct:
  assumes "distinct (map fst (values s))"
  shows "distinct (map fst (values (snd (capacity_pass s))))"
proof -
  from capacity_pass_drop[OF assms] obtain n where
    "capacity_pass s = (map fst (take n (values s)), s\<lparr>values := drop n (values s)\<rparr>)" ..
  then show ?thesis using assms by (simp add: distinct_drop_keys)
qed

lemma prune_size_le:
  assumes "distinct (map fst (values s))" and "0 \<le> pruneAmount s" and "0 \<le> capacity s"
  shows "Map_size (values (prune now1 now2 s)) \<le> capacity s"
proof -
  have "length (values (prune now1 now2 s)) \<le> length (values (snd (capacity_pass s)))"
    unfolding prune_snd using ttl_pass_subseq by (rule list_emb_length)
  moreover have "Map_size (values (snd (capacity_pass s))) \<le> capacity s"
    using capacity_pass_settled[OF assms(1,2)] assms(3) by (auto simp: Map_size_def)
  ultimately show ?thesis by (simp add: Map_size_def)
qed

lemma prune_twice:
  assumes "distinct (map fst (values s))" and "0 \<le> pruneAmount s"
  shows "prune_trace now1 now2' (prune now1 now2 s) = ([], prune now1 now2 s)"
proof -
  let ?s1 = "snd (capacity_pass s)"
  let ?s2 = "prune now1 now2 s"
  have d1: "distinct (map fst (values ?s1))" by (rule capacity_pass_distinct[OF assms(1)])
  have len: "length (values ?s2) \<le> length (values ?s1)"
    unfolding prune_snd using ttl_pass_subseq by (rule list_emb_length)
  have "Map_size (values ?s1) \<le> capacity s \<or> values ?s1 = []"
    by (rule capacity_pass_settled[OF assms])
  with len have "Map_size (values ?s2) \<le> capacity ?s2 \<or> values ?s2 = []"
    by (auto simp: Map_size_def prune_config)
  then have a: "capacity_pass ?s2 = ([], ?s2)" by (rule capacity_pass_idle)
  have "ttl ?s2 = None \<or>
         (\<exists>T. ttl ?s2 = Some T \<and> (T \<le> 0 \<or> values ?s2 = [] \<or> now1 - T \<le> oldest ?s2))"
    unfolding prune_snd by (rule ttl_pass_settled[OF d1])
  then have b: "ttl_pass now1 now2' ?s2 = ([], ?s2)" by (rule ttl_pass_skip)
  show ?thesis by (simp add: prune_trace_def a b)
qed

lemma size_update_le: "Map_size (AList.update k v m) \<le> Map_size m + 1"
  unfolding Map_size_def by (induction m) auto

lemma get_size_le:
  "Map_size (values (fst (snd (get now1 now2 now3 key s w))))
     \<le> Map_size (values (prune now1 now2 s)) + 1"
  by (simp add: get_unfold Let_def size_update_le split: option.splits prod.splits sum.splits)

lemma get_config:
  "capacity (fst (snd (get now1 now2 now3 key s w))) = capacity s \<and>
   pruneAmount (fst (snd (get now1 now2 now3 key s w))) = pruneAmount s \<and>
   ttl (fst (snd (get now1 now2 now3 key s w))) = ttl s \<and>
   missCallback (fst (snd (get now1 now2 now3 key s w))) = missCallback s"
  by (simp add: get_unfold Let_def prune_config split: option.splits prod.splits sum.splits)

lemma get_distinct:
  assumes "distinct (map fst (values s))"
  shows "distinct (map fst (values (fst (snd (get now1 now2 now3 key s w)))))"
  using prune_distinct[OF assms, of now1 now2]
  by (simp add: get_unfold Let_def distinct_update split: option.splits prod.splits sum.splits)

lemma exec_keeps:
  assumes "distinct (map fst (values s))"
  shows "distinct (map fst (values (fst (exec x (s, w))))) \<and>
         capacity (fst (exec x (s, w))) = capacity s \<and>
         pruneAmount (fst (exec x (s, w))) = pruneAmount s \<and>
         ttl (fst (exec x (s, w))) = ttl s \<and>
         missCallback (fst (exec x (s, w))) = missCallback s"
proof (cases x)
  case (OpGet key now1 now2 now3)
  then show ?thesis using get_distinct[OF assms] by (simp add: get_config)
next
  case (OpDelete key)
  then show ?thesis using assms by (simp add: delete_def distinct_delete)
next
  case OpClear
  then show ?thesis by (simp add: clear_def)
next
  case (OpPrune now1 now2)
  then show ?thesis using prune_distinct[OF assms] by (simp add: prune_config)
qed

lemma run_keeps:
  "distinct (map fst (values s)) \<Longrightarrow>
   distinct (map fst (values (fst (run ops (s, w))))) \<and>
   capacity (fst (run ops (s, w))) = capacity s \<and>
   pruneAmount (fst (run ops (s, w))) = pruneAmount s \<and>
   ttl (fst (run ops (s, w))) = ttl s \<and>
   missCallback (fst (run ops (s, w))) = missCallback s"
proof (induction ops arbitrary: s w)
  case Nil
  then show ?case by simp
next
  case (Cons x xs)
  obtain s' w' where e: "exec x (s, w) = (s', w')" by force
  from exec_keeps[OF Cons.prems, of x w] e have k: "distinct (map fst (values s'))"
    "capacity s' = capacity s" "pruneAmount s' = pruneAmount s" "ttl s' = ttl s"
    "missCallback s' = missCallback s" by simp_all
  from Cons.IH[OF k(1), of w'] e k show ?case by simp
qed

lemma run_snoc: "run (ops @ [x]) c = exec x (run ops c)"
  by (induction ops arbitrary: c) simp_all

section \<open>The scenarios, evaluated\<close>

lemmas cache_defs = get_unfold prune_def prune_trace_def capacity_pass_def ttl_pass_def
  construct_def clear_def delete_def Map_size_def Let_def

lemmas scenario_defs = scenario_options_def ttl_options_def both_options_def
  counting_resolver_def flaky_resolver_def

lemma abcd_eval:
  "abcd = \<lparr>values = [(''a'', \<lparr>value = JSStr ''a'', entered = 1\<rparr>),
                      (''b'', \<lparr>value = JSStr ''b'', entered = 2\<rparr>),
                      (''c'', \<lparr>value = JSStr ''c'', entered = 3\<rparr>),
                      (''d'', \<lparr>value = JSStr ''d'', entered = 4\<rparr>)],
           capacity = 3, pruneAmount = 2, ttl = None, oldest = 0,
           missCallback = counting_resolver\<rparr>"
  by (simp add: abcd_def cache_defs scenario_defs)

lemma stale_x_eval:
  "stale_x = \<lparr>values = [(''x'', \<lparr>value = JSStr ''x'', entered = 0\<rparr>)],
              capacity = 3, pruneAmount = 2, ttl = Some 1000, oldest = 0,
              missCallback = flaky_resolver\<rparr>"
  by (simp add: stale_x_def cache_defs scenario_defs)

lemma mixed_eval:
  "mixed = \<lparr>values = [(''a'', \<lparr>value = JSStr ''a'', entered = 0\<rparr>),
                       (''b'', \<lparr>value = JSStr ''b'', entered = 100\<rparr>),
                       (''c'', \<lparr>value = JSStr ''c'', entered = 200\<rparr>),
                       (''d'', \<lparr>value = JSStr ''d'', entered = 900\<rparr>)],
            capacity = 3, pruneAmount = 1, ttl = Some 1000, oldest = 0,
            missCallback = counting_resolver\<rparr>"
  by (simp add: mixed_def cache_defs scenario_defs)

lemma mixed_prune_eval:
  "prune_trace 1500 1500 mixed =
     ([''a'', ''b'', ''c''],
      mixed\<lparr>values := [(''d'', \<lparr>value = JSStr ''d'', entered = 900\<rparr>)], oldest := 900\<rparr>)"
  by (simp add: mixed_eval cache_defs)

lemma get_values_cases:
  "values (fst (snd (get now1 now2 now3 key s w))) = values (prune now1 now2 s) \<or>
   (\<exists>v. values (fst (snd (get now1 now2 now3 key s w))) =
          values (prune now1 now2 s) @ [(key, \<lparr>value = v, entered = now3\<rparr>)])"
  by (auto simp: get_unfold Let_def update_fresh split: option.splits prod.splits sum.splits)

lemma construct_ttl:
  "opt_ttl options = Some T \<Longrightarrow> 0 < T \<Longrightarrow> ttl (construct cb options t0) = Some T"
  by (simp add: construct_def)

lemma prune_subseq: "subseq (values (prune now1 now2 s)) (values s)"
proof -
  have "subseq (values (prune now1 now2 s)) (values (snd (capacity_pass s)))"
    unfolding prune_snd by (rule ttl_pass_subseq)
  then show ?thesis using capacity_pass_subseq by (rule subseq_order.trans)
qed

lemma subseq_set: "subseq xs ys \<Longrightarrow> set xs \<subseteq> set ys"
  by (auto elim: list_emb_set)

lemma prune_set: "set (values (prune now1 now2 s)) \<subseteq> set (values s)"
  by (rule subseq_set[OF prune_subseq])

section \<open>Calls that follow one another, calls that overlap\<close>

text \<open>
  A \<open>get\<close> that resumes before anything else happens is the method \<open>get\<close> of the
  sequences of operations.
\<close>

lemma get_as_events:
  assumes "suspended ss = []"
  shows "step (EvResume 0 now3) (step (EvGet key now1 now2) ss) =
           ss\<lparr>cache := fst (snd (get now1 now2 now3 key (cache ss) (world ss))),
              world := snd (snd (get now1 now2 now3 key (cache ss) (world ss)))\<rparr>"
  using assms
  by (simp add: get_def get_lookup_def Let_def split: option.splits prod.splits sum.splits)

lemmas session_defs = fresh_session_def overlapping_gets_def versioned_resolver_def
  get_lookup_def get_store_def

text \<open>
  For a call that no other call overlaps, a miss calls the resolver once and appends the new
  entry, and the \<open>get\<close> of the same key that follows, with the key still in the mapping
  once it has pruned, returns the stored value and leaves the world as it is.
\<close>

lemma unoverlapped_miss_then_hit:
  assumes "distinct (map fst (values s))"
    and "map_of (values s) key = None"
    and "missCallback s key w = (Inr v, w')"
  shows "get now1 now2 now3 key s w =
           (Inr v,
            (prune now1 now2 s)\<lparr>values :=
               values (prune now1 now2 s) @ [(key, \<lparr>value = v, entered = now3\<rparr>)]\<rparr>,
            w') \<and>
         (map_of (values (prune m1 m2 (fst (snd (get now1 now2 now3 key s w))))) key \<noteq> None \<longrightarrow>
          get m1 m2 m3 key (fst (snd (get now1 now2 now3 key s w))) w2 =
            (Inr v, prune m1 m2 (fst (snd (get now1 now2 now3 key s w))), w2))"
proof -
  let ?e = "\<lparr>value = v, entered = now3\<rparr>"
  let ?s1 = "(prune now1 now2 s)\<lparr>values := values (prune now1 now2 s) @ [(key, ?e)]\<rparr>"
  have "set (values (prune now1 now2 s)) \<subseteq> set (values s)"
    by (rule prune_set)
  with assms(2) have miss: "map_of (values (prune now1 now2 s)) key = None"
    by (auto simp: map_of_eq_None_iff)
  have first: "get now1 now2 now3 key s w = (Inr v, ?s1, w')"
    using miss assms(3) by (simp add: get_unfold Let_def prune_config update_fresh)
  have d1: "distinct (map fst (values ?s1))"
    using get_distinct[OF assms(1), of now1 now2 now3 key w] first by simp
  have second: "get m1 m2 m3 key ?s1 w2 = (Inr v, prune m1 m2 ?s1, w2)"
    if "map_of (values (prune m1 m2 ?s1)) key \<noteq> None"
  proof -
    from that obtain hit where hit: "map_of (values (prune m1 m2 ?s1)) key = Some hit" by auto
    then have "(key, hit) \<in> set (values (prune m1 m2 ?s1))" by (rule map_of_SomeD)
    moreover have "set (values (prune m1 m2 ?s1)) \<subseteq> set (values ?s1)"
      by (rule prune_set)
    ultimately have "(key, hit) \<in> set (values ?s1)" by blast
    moreover have "(key, ?e) \<in> set (values ?s1)" by simp
    ultimately have "hit = ?e" using d1 by (metis eq_key_imp_eq_value)
    with hit show ?thesis by (simp add: get_unfold)
  qed
  from first second show ?thesis by simp
qed


text \<open>
  After operations that follow one another, under clock readings that never decrease,
  \<open>oldest\<close> is at most the timestamp of every entry of the mapping.
\<close>

lemma unoverlapped_oldest_lower_bound:
  assumes "monotone_clock t0 ops"
    and "p \<in> set (values (fst (run ops (construct cb options t0, w))))"
  shows "oldest (fst (run ops (construct cb options t0, w))) \<le> entered (snd p)"
  using cache_inv_reachable[OF assms(1), of cb options w] assms(2)
  by (simp add: cache_inv_def list_all_iff)


text \<open>
  The clock matters as well: with \<open>ttl = 1000\<close>, \<open>x\<close> stored at time 100 and then \<open>y\<close>
  stored when the clock reads 50, the \<open>prune\<close> at 1080 stops at \<open>x\<close> and sets \<open>oldest\<close>
  to 100, above the timestamp of \<open>y\<close>.
\<close>

lemma clock_going_back_example:
  "fst (run [OpGet ''x'' 100 100 100, OpGet ''y'' 50 50 50, OpPrune 1080 1080]
          (construct counting_resolver ttl_options 0, 0)) =
     \<lparr>values = [(''x'', \<lparr>value = JSStr ''x'', entered = 100\<rparr>),
                 (''y'', \<lparr>value = JSStr ''y'', entered = 50\<rparr>)],
      capacity = 3, pruneAmount = 2, ttl = Some 1000, oldest = 100,
      missCallback = counting_resolver\<rparr>"
  by (simp add: cache_defs scenario_defs)

section \<open>The claims of the specification\<close>

subsection \<open>C1: the size bound\<close>

text \<open>
  Claim C1, as stated: for every sequence of operations the size of the mapping is at most
  \<open>capacity\<close> right after any \<open>get\<close> or \<open>prune\<close> returns. It fails for \<open>get\<close>:
  with \<open>capacity = 3, prune = 2\<close> the fourth miss in a row returns with four entries.
\<close>

theorem size_after_get_counterexample:
  "\<not> Map_size (values (fst (run
        [OpGet ''a'' 1 1 1, OpGet ''b'' 2 2 2, OpGet ''c'' 3 3 3, OpGet ''d'' 4 4 4]
        (construct counting_resolver scenario_options 0, 0))))
      \<le> opt_capacity scenario_options"
  by (simp add: cache_defs scenario_defs)

text \<open>
  Claim C1, amended: for every sequence of operations on a cache constructed with
  \<open>capacity \<ge> 0\<close> and \<open>prune \<ge> 0\<close>, the size of the mapping is at most \<open>capacity\<close>
  right after any \<open>prune\<close> returns and at most \<open>capacity + 1\<close> right after any \<open>get\<close>
  returns (\<open>get\<close> prunes before it inserts, not after).
\<close>

theorem size_bound_after_prune_and_get:
  assumes "0 \<le> opt_capacity options" and "0 \<le> opt_prune options"
  shows "Map_size (values (fst (run (ops @ [OpPrune now1 now2]) (construct cb options t0, w))))
           \<le> opt_capacity options \<and>
         Map_size (values (fst (run (ops @ [OpGet key now1 now2 now3]) (construct cb options t0, w))))
           \<le> opt_capacity options + 1"
proof -
  obtain s w' where r: "run ops (construct cb options t0, w) = (s, w')" by force
  have "distinct (map fst (values (construct cb options t0)))" by (simp add: construct_def)
  from run_keeps[OF this, of ops w] r
  have d: "distinct (map fst (values s))" and c: "capacity s = opt_capacity options"
    and p: "pruneAmount s = opt_prune options" by (simp_all add: construct_def)
  have le: "Map_size (values (prune now1 now2 s)) \<le> opt_capacity options"
    using prune_size_le[OF d, of now1 now2] assms c p by simp
  have "Map_size (values (fst (snd (get now1 now2 now3 key s w'))))
          \<le> opt_capacity options + 1"
    using get_size_le[of now1 now2 now3 key s w'] le by simp
  with le r show ?thesis by (simp add: run_snoc)
qed

theorem size_bound_after_prune_and_get_witness:
  "0 \<le> opt_capacity scenario_options \<and> 0 \<le> opt_prune scenario_options \<and>
   Map_size (values (fst (run
      ([OpGet ''a'' 1 1 1, OpGet ''b'' 2 2 2, OpGet ''c'' 3 3 3, OpGet ''d'' 4 4 4] @ [OpPrune 5 5])
      (construct counting_resolver scenario_options 0, 0::nat)))) \<le> 3 \<and>
   Map_size (values (fst (run
      ([OpGet ''a'' 1 1 1, OpGet ''b'' 2 2 2, OpGet ''c'' 3 3 3] @ [OpGet ''d'' 4 4 4])
      (construct counting_resolver scenario_options 0, 0::nat)))) \<le> 3 + 1"
proof -
  have h: "0 \<le> opt_capacity scenario_options" "0 \<le> opt_prune scenario_options"
    by (simp_all add: scenario_defs)
  have c: "opt_capacity scenario_options = 3" by (simp add: scenario_defs)
  have a: "Map_size (values (fst (run
      ([OpGet ''a'' 1 1 1, OpGet ''b'' 2 2 2, OpGet ''c'' 3 3 3, OpGet ''d'' 4 4 4] @ [OpPrune 5 5])
      (construct counting_resolver scenario_options 0, 0::nat)))) \<le> 3"
    using size_bound_after_prune_and_get[OF h,
      where ops = "[OpGet ''a'' 1 1 1, OpGet ''b'' 2 2 2, OpGet ''c'' 3 3 3, OpGet ''d'' 4 4 4]"
        and ?now1.0 = 5 and ?now2.0 = 5 and cb = counting_resolver and ?t0.0 = 0 and w = "0::nat"]
    unfolding c by (rule conjunct1)
  have b: "Map_size (values (fst (run
      ([OpGet ''a'' 1 1 1, OpGet ''b'' 2 2 2, OpGet ''c'' 3 3 3] @ [OpGet ''d'' 4 4 4])
      (construct counting_resolver scenario_options 0, 0::nat)))) \<le> 3 + 1"
    using size_bound_after_prune_and_get[OF h,
      where ops = "[OpGet ''a'' 1 1 1, OpGet ''b'' 2 2 2, OpGet ''c'' 3 3 3]"
        and key = "''d''" and ?now1.0 = 4 and ?now2.0 = 4 and ?now3.0 = 4
        and cb = counting_resolver and ?t0.0 = 0 and w = "0::nat"]
    unfolding c by (rule conjunct2)
  from h a b show ?thesis by (intro conjI)
qed

subsection \<open>C2: expiry after the TTL\<close>

text \<open>
  Claim C2, as stated: with TTL \<open>T\<close>, an entry inserted at time \<open>t0\<close> is absent after any
  \<open>get\<close> or \<open>prune\<close> call at a time \<open>\<ge> t0 + T\<close>. It fails at the boundary: with
  \<open>ttl = 1000\<close>, the entry inserted at time 0 is still in the mapping after the \<open>prune\<close>
  called at time 1000, because both comparisons with \<open>expiry\<close> are strict.
\<close>

theorem ttl_boundary_counterexample:
  "(''x'', \<lparr>value = JSStr ''x'', entered = 0\<rparr>) \<in>
     set (values (fst (run [OpGet ''x'' 0 0 0, OpPrune 1000 1000]
                         (construct counting_resolver ttl_options 0, 0))))"
  by (simp add: cache_defs scenario_defs)

text \<open>
  Claim C2, amended: with TTL \<open>T > 0\<close> and a clock that never goes back, for every sequence
  of operations that follow one another, every entry that is in the mapping after a \<open>get\<close> or \<open>prune\<close> call whose
  clock reading is \<open>now1\<close> has a timestamp \<open>\<ge> now1 - T\<close>: an entry inserted at \<open>t0\<close> is
  absent after any \<open>get\<close> or \<open>prune\<close> call at a time strictly after \<open>t0 + T\<close>.
\<close>

theorem expired_entries_absent:
  assumes "monotone_clock t0 (ops @ [x])"
    and "opt_ttl options = Some T" and "0 < T"
    and "x = OpPrune now1 now2 \<or> x = OpGet key now1 now2 now3"
    and "p \<in> set (values (fst (run (ops @ [x]) (construct cb options t0, w))))"
  shows "now1 - T \<le> entered (snd p)"
proof -
  obtain s w' where r: "run ops (construct cb options t0, w) = (s, w')" by force
  from assms(1) have so: "sorted (t0 # clock_readings ops @ op_clock x)"
    by (simp add: monotone_clock_def clock_readings_def)
  then have "monotone_clock t0 ops" unfolding monotone_clock_def by (rule sorted_clock_split(1))
  from cache_inv_reachable[OF this, of cb options w] r
  have inv: "cache_inv (last (t0 # clock_readings ops)) s" by simp
  have "distinct (map fst (values (construct cb options t0)))" by (simp add: construct_def)
  from run_keeps[OF this, of ops w] r construct_ttl[OF assms(2,3), of cb t0]
  have T: "ttl s = Some T" by simp
  from assms(4) show ?thesis
  proof
    assume x: "x = OpPrune now1 now2"
    with assms(5) r have "p \<in> set (values (prune now1 now2 s))" by (simp add: run_snoc)
    from prune_fresh[OF inv T assms(3) this] show ?thesis .
  next
    assume x: "x = OpGet key now1 now2 now3"
    with assms(5) r have p: "p \<in> set (values (fst (snd (get now1 now2 now3 key s w'))))"
      by (simp add: run_snoc)
    from sorted_clock_split(2)[OF so] x have "now1 \<le> now3" by simp
    with assms(3) have new: "now1 - T \<le> now3" by simp
    from get_values_cases[of now1 now2 now3 key s w'] p
    have "p \<in> set (values (prune now1 now2 s)) \<or> entered (snd p) = now3" by auto
    then show ?thesis
    proof
      assume "p \<in> set (values (prune now1 now2 s))"
      from prune_fresh[OF inv T assms(3) this] show ?thesis .
    next
      assume "entered (snd p) = now3"
      with new show ?thesis by simp
    qed
  qed
qed

theorem expired_entries_absent_witness:
  "monotone_clock 0 ([OpGet ''x'' 0 0 0, OpGet ''y'' 600 600 600] @ [OpPrune 1200 1200]) \<and>
   opt_ttl ttl_options = Some 1000 \<and> (0::int) < 1000 \<and>
   (''y'', \<lparr>value = JSStr ''y'', entered = 600\<rparr>) \<in>
     set (values (fst (run ([OpGet ''x'' 0 0 0, OpGet ''y'' 600 600 600] @ [OpPrune 1200 1200])
                         (construct counting_resolver ttl_options 0, 0::nat)))) \<and>
   1200 - 1000 \<le> entered (snd (''y'', \<lparr>value = JSStr ''y'', entered = 600\<rparr>))"
proof -
  have m: "monotone_clock 0 ([OpGet ''x'' 0 0 0, OpGet ''y'' 600 600 600] @ [OpPrune 1200 1200])"
    by (simp add: monotone_clock_def clock_readings_def)
  have t: "opt_ttl ttl_options = Some 1000" "(0::int) < 1000" by (simp_all add: scenario_defs)
  have x: "OpPrune 1200 1200 = OpPrune 1200 1200 \<or> OpPrune 1200 1200 = OpGet ''x'' 1200 1200 0"
    by simp
  have p: "(''y'', \<lparr>value = JSStr ''y'', entered = 600\<rparr>) \<in>
     set (values (fst (run ([OpGet ''x'' 0 0 0, OpGet ''y'' 600 600 600] @ [OpPrune 1200 1200])
                         (construct counting_resolver ttl_options 0, 0::nat))))"
    by (simp add: cache_defs scenario_defs)
  from expired_entries_absent[OF m t x p] m t p show ?thesis by (intro conjI)
qed

subsection \<open>C3: a failing resolver\<close>

text \<open>
  Claim C3, as stated: when the resolver fails during \<open>get(key)\<close>, the failure reaches the
  caller and the whole cache state after the call equals the state before it. The second
  half fails: \<open>get\<close> has already pruned when it calls the resolver. With \<open>ttl = 1000\<close> and
  \<open>x\<close> inserted at time 0, the failing \<open>get\<close> of \<open>y\<close> at time 1500 returns the error and
  leaves a cache without \<open>x\<close>.
\<close>

theorem failed_get_counterexample:
  "fst (get 1500 1500 1500 ''y'' stale_x 1) = Inl ''unreachable'' \<and>
   values stale_x = [(''x'', \<lparr>value = JSStr ''x'', entered = 0\<rparr>)] \<and>
   values (fst (snd (get 1500 1500 1500 ''y'' stale_x 1))) = [] \<and>
   fst (snd (get 1500 1500 1500 ''y'' stale_x 1)) \<noteq> stale_x"
proof -
  have g: "get 1500 1500 1500 ''y'' stale_x 1 =
             (Inl ''unreachable'', stale_x\<lparr>values := [], oldest := 1500\<rparr>, 2)"
    by (simp add: stale_x_eval cache_defs scenario_defs)
  have "values (stale_x\<lparr>values := [], oldest := 1500\<rparr>) \<noteq> values stale_x"
    by (simp add: stale_x_eval)
  then have "stale_x\<lparr>values := [], oldest := 1500\<rparr> \<noteq> stale_x" by force
  with g show ?thesis by (simp add: stale_x_eval)
qed

text \<open>
  Claim C3, amended: for every key and every starting cache state, if the resolver fails
  during \<open>get(key)\<close> (the key is not in the mapping once \<open>get\<close> has pruned, and the
  callback throws or rejects), the failure reaches the caller, no entry is cached, and the
  cache state after the failed call (mapping contents, their order and \<open>oldest\<close>) equals the
  state that the \<open>prune\<close> at the start of \<open>get\<close> leaves.
\<close>

theorem failed_get_leaves_pruned_state:
  assumes "map_of (values (prune now1 now2 s)) key = None"
    and "missCallback s key w = (Inl err, w')"
  shows "get now1 now2 now3 key s w = (Inl err, prune now1 now2 s, w')"
  using assms by (simp add: get_unfold prune_config)

theorem failed_get_leaves_pruned_state_witness:
  "map_of (values (prune 1500 1500 stale_x)) ''y'' = None \<and>
   missCallback stale_x ''y'' 1 = (Inl ''unreachable'', 2) \<and>
   get 1500 1500 1500 ''y'' stale_x 1 = (Inl ''unreachable'', prune 1500 1500 stale_x, 2)"
proof -
  have a: "map_of (values (prune 1500 1500 stale_x)) ''y'' = None"
    by (simp add: stale_x_eval cache_defs)
  have b: "missCallback stale_x ''y'' 1 = (Inl ''unreachable'', 2)"
    by (simp add: stale_x_eval scenario_defs)
  from failed_get_leaves_pruned_state[OF a b] a b show ?thesis by (intro conjI)
qed

subsection \<open>C4: the capacity pass\<close>

text \<open>
  Claim C4: the capacity pass of \<open>prune\<close> runs iff the size is strictly above \<open>capacity\<close>,
  and then removes entries one at a time, oldest first, until the size is at most
  \<open>capacity - pruneAmount\<close>. For a map with distinct keys and \<open>pruneAmount \<ge> 0\<close>: the pass
  does nothing when the size is at most \<open>capacity\<close>; otherwise the keys it deletes are, in
  the order of the deletions, the first \<open>size - (capacity - pruneAmount)\<close> keys of the
  mapping (all of them when that number exceeds the size), the rest of the mapping is left as
  it was, and with \<open>pruneAmount \<le> capacity\<close> the size it stops at is exactly
  \<open>capacity - pruneAmount\<close>. With \<open>capacity \<ge> 0\<close> the pass deletes something iff the size
  is above \<open>capacity\<close>. The scenario of the claim (\<open>capacity = 3, prune = 2\<close>, entries
  \<open>a, b, c, d\<close>, leaving \<open>d\<close> after \<open>a, b, c\<close> have gone in that order) is evaluated after
  the theorem.
\<close>

theorem capacity_pass_oldest_first:
  assumes "distinct (map fst (values s))" and "0 \<le> pruneAmount s"
  shows "capacity_pass s =
     (if Map_size (values s) > capacity s then
        (map fst (take (nat (Map_size (values s) - (capacity s - pruneAmount s))) (values s)),
         s\<lparr>values := drop (nat (Map_size (values s) - (capacity s - pruneAmount s))) (values s)\<rparr>)
      else ([], s)) \<and>
     (0 \<le> capacity s \<longrightarrow> (fst (capacity_pass s) \<noteq> []) = (Map_size (values s) > capacity s)) \<and>
     (Map_size (values s) > capacity s \<and> pruneAmount s \<le> capacity s \<longrightarrow>
        Map_size (values (snd (capacity_pass s))) = capacity s - pruneAmount s)"
proof -
  have eq: "capacity_pass s =
     (if Map_size (values s) > capacity s then
        (map fst (take (nat (Map_size (values s) - (capacity s - pruneAmount s))) (values s)),
         s\<lparr>values := drop (nat (Map_size (values s) - (capacity s - pruneAmount s))) (values s)\<rparr>)
      else ([], s))"
    by (rule capacity_pass_exact[OF assms])
  have runs: "(fst (capacity_pass s) \<noteq> []) = (Map_size (values s) > capacity s)"
    if "0 \<le> capacity s"
  proof (cases "Map_size (values s) > capacity s")
    case True
    with that assms(2) have "values s \<noteq> []"
      and "0 < nat (Map_size (values s) - (capacity s - pruneAmount s))"
      by (auto simp: Map_size_def)
    with True show ?thesis unfolding eq by simp
  next
    case False
    then show ?thesis unfolding eq by simp
  qed
  have "Map_size (values (snd (capacity_pass s))) = capacity s - pruneAmount s"
    if "Map_size (values s) > capacity s" "pruneAmount s \<le> capacity s"
    unfolding eq using that assms(2) by (simp add: Map_size_def)
  with eq runs show ?thesis by blast
qed

theorem capacity_pass_oldest_first_witness:
  "distinct (map fst (values abcd)) \<and> 0 \<le> pruneAmount abcd \<and>
   map fst (values abcd) = [''a'', ''b'', ''c'', ''d''] \<and>
   capacity abcd = 3 \<and> pruneAmount abcd = 2 \<and>
   capacity_pass abcd =
     ([''a'', ''b'', ''c''], abcd\<lparr>values := [(''d'', \<lparr>value = JSStr ''d'', entered = 4\<rparr>)]\<rparr>) \<and>
   (fst (capacity_pass abcd) \<noteq> []) = (Map_size (values abcd) > capacity abcd) \<and>
   Map_size (values (snd (capacity_pass abcd))) = capacity abcd - pruneAmount abcd"
proof -
  have d: "distinct (map fst (values abcd))" and p: "0 \<le> pruneAmount abcd"
    and z: "0 \<le> capacity abcd"
    by (simp_all add: abcd_eval)
  have big: "Map_size (values abcd) > capacity abcd \<and> pruneAmount abcd \<le> capacity abcd"
    by (simp add: abcd_eval Map_size_def)
  have n: "nat (Map_size (values abcd) - (capacity abcd - pruneAmount abcd)) = 3"
    by (simp add: abcd_eval Map_size_def)
  have k: "map fst (values abcd) = [''a'', ''b'', ''c'', ''d'']"
    "capacity abcd = 3" "pruneAmount abcd = 2"
    by (simp_all add: abcd_eval)
  have t: "map fst (take 3 (values abcd)) = [''a'', ''b'', ''c'']"
    "drop 3 (values abcd) = [(''d'', \<lparr>value = JSStr ''d'', entered = 4\<rparr>)]"
    by (simp_all add: abcd_eval)
  note c = capacity_pass_oldest_first[OF d p, unfolded n]
  from conjunct1[OF c] big
  have e1: "capacity_pass abcd =
          (map fst (take 3 (values abcd)), abcd\<lparr>values := drop 3 (values abcd)\<rparr>)"
    by (simp only: if_True)
  from conjunct1[OF conjunct2[OF c]] z
  have e2: "(fst (capacity_pass abcd) \<noteq> []) = (Map_size (values abcd) > capacity abcd)"
    by blast
  from conjunct2[OF conjunct2[OF c]] big
  have e3: "Map_size (values (snd (capacity_pass abcd))) = capacity abcd - pruneAmount abcd"
    by blast
  from d p k e1 e2 e3 show ?thesis unfolding t by (intro conjI)
qed

subsection \<open>C5: one resolver call per miss, none per hit\<close>

text \<open>
  Claim C5: for every key, \<open>get\<close> on a missing key invokes the resolver exactly once
  during that call and stores the resolved value as a new entry at the newest position; a
  subsequent \<open>get\<close> for the same key, before the entry is expired or evicted, returns the
  stored value without invoking the resolver. The code does not store at the newest position
  when the key has been stored while the call was suspended at \<open>await\<close>. In the session
  \<open>overlapping_gets\<close> the second \<open>get\<close> of \<open>k\<close> finds the key missing and calls the
  resolver once (two calls are suspended and the resolver has been called twice). When it
  resumes at time 501 the mapping is \<open>k\<close> (stored at 10 by the first call), then \<open>b\<close>
  (stored at 20); its \<open>this.values.set\<close> puts its value 1 and the timestamp 501 into the
  entry of \<open>k\<close> where it is, in front of \<open>b\<close>, and not as a new entry behind \<open>b\<close>.
\<close>

theorem overlapped_miss_stored_in_place:
  "map_of (values (cache (steps [EvGet ''k'' 0 0] fresh_session))) ''k'' = None \<and>
   suspended (steps [EvGet ''k'' 0 0, EvGet ''k'' 1 1] fresh_session) =
     [(''k'', Inr (JSNum 0)), (''k'', Inr (JSNum 1))] \<and>
   world (steps [EvGet ''k'' 0 0, EvGet ''k'' 1 1] fresh_session) = 2 \<and>
   values (cache (steps [EvGet ''k'' 0 0, EvGet ''k'' 1 1, EvResume 0 10,
                         EvGet ''b'' 20 20, EvResume 1 20] fresh_session)) =
     [(''k'', \<lparr>value = JSNum 0, entered = 10\<rparr>), (''b'', \<lparr>value = JSNum 2, entered = 20\<rparr>)] \<and>
   values (cache (steps overlapping_gets fresh_session)) =
     [(''k'', \<lparr>value = JSNum 1, entered = 501\<rparr>), (''b'', \<lparr>value = JSNum 2, entered = 20\<rparr>)] \<and>
   values (cache (steps overlapping_gets fresh_session)) \<noteq>
     [(''b'', \<lparr>value = JSNum 2, entered = 20\<rparr>), (''k'', \<lparr>value = JSNum 1, entered = 501\<rparr>)]"
  by (simp add: session_defs cache_defs scenario_defs)

subsection \<open>C6: the cursor oldest\<close>

text \<open>
  Claim C6: \<open>oldest\<close> is a conservative lower bound: after every operation (construct,
  \<open>get\<close>, \<open>delete\<close>, \<open>clear\<close>, \<open>prune\<close>) it is never newer than the timestamp of the
  oldest surviving entry, whenever the mapping is not empty. The comment on the field says
  the same: the oldest (first) record as of the last \<open>prune\<close>. The code breaks it after the
  session \<open>overlapping_gets\<close>, whose clock readings never decrease: the mapping is \<open>k\<close>
  with timestamp 501, then \<open>b\<close> with timestamp 20. The \<open>prune\<close> at time 1100
  (\<open>expiry = 100\<close>) visits \<open>k\<close> first, finds it not expired, sets \<open>oldest\<close> to 501 and
  stops: \<open>b\<close>, 1080 old with a TTL of 1000, is kept, and \<open>oldest\<close> is newer than its
  timestamp.
\<close>

theorem oldest_newer_than_surviving_entry:
  "sorted (0 # concat (map event_clock (overlapping_gets @ [EvPrune 1100 1100]))) \<and>
   values (cache (steps (overlapping_gets @ [EvPrune 1100 1100]) fresh_session)) =
     [(''k'', \<lparr>value = JSNum 1, entered = 501\<rparr>), (''b'', \<lparr>value = JSNum 2, entered = 20\<rparr>)] \<and>
   oldest (cache (steps (overlapping_gets @ [EvPrune 1100 1100]) fresh_session)) = 501 \<and>
   \<not> oldest (cache (steps (overlapping_gets @ [EvPrune 1100 1100]) fresh_session))
       \<le> entered (snd (''b'', \<lparr>value = JSNum 2, entered = 20\<rparr>))"
  by (simp add: session_defs cache_defs scenario_defs)

subsection \<open>C7: pruning goes in insertion order\<close>

text \<open>
  Claim C7: pruning, in the capacity pass and in the TTL pass, removes entries strictly in
  insertion order: it never removes an entry while an entry inserted earlier survives. For a
  map with distinct keys: the keys that \<open>prune\<close> deletes, in the order of the deletions,
  followed by the keys it keeps, are the keys of the mapping in insertion order, and the
  entries it keeps are the mapping without its first entries. The same holds for each of
  the two passes alone.
\<close>

theorem prune_in_insertion_order:
  assumes "distinct (map fst (values s))"
  shows "fst (prune_trace now1 now2 s) @ map fst (values (prune now1 now2 s))
           = map fst (values s) \<and>
         values (prune now1 now2 s) = drop (length (fst (prune_trace now1 now2 s))) (values s) \<and>
         fst (capacity_pass s) @ map fst (values (snd (capacity_pass s))) = map fst (values s) \<and>
         fst (ttl_pass now1 now2 s) @ map fst (values (snd (ttl_pass now1 now2 s)))
           = map fst (values s)"
proof -
  from prune_trace_drop[OF assms, of now1 now2] obtain n t where
    a: "prune_trace now1 now2 s =
          (map fst (take n (values s)), s\<lparr>values := drop n (values s), oldest := t\<rparr>)"
    by blast
  from capacity_pass_drop[OF assms] obtain m where
    b: "capacity_pass s = (map fst (take m (values s)), s\<lparr>values := drop m (values s)\<rparr>)" ..
  from ttl_pass_drop[OF assms, of now1 now2] obtain k u where
    c: "ttl_pass now1 now2 s =
          (map fst (take k (values s)), s\<lparr>values := drop k (values s), oldest := u\<rparr>)"
    by blast
  have 1: "fst (prune_trace now1 now2 s) @ map fst (values (prune now1 now2 s))
             = map fst (values s)"
    unfolding prune_def a by (simp add: map_append[symmetric] del: map_append)
  have 2: "values (prune now1 now2 s) = drop (length (fst (prune_trace now1 now2 s))) (values s)"
    unfolding prune_def a by (simp add: min_def)
  have 3: "fst (capacity_pass s) @ map fst (values (snd (capacity_pass s))) = map fst (values s)"
    unfolding b by (simp add: map_append[symmetric] del: map_append)
  have 4: "fst (ttl_pass now1 now2 s) @ map fst (values (snd (ttl_pass now1 now2 s)))
             = map fst (values s)"
    unfolding c by (simp add: map_append[symmetric] del: map_append)
  from 1 2 3 4 show ?thesis by (intro conjI)
qed

theorem prune_in_insertion_order_witness:
  "distinct (map fst (values mixed)) \<and>
   map fst (values mixed) = [''a'', ''b'', ''c'', ''d''] \<and>
   fst (capacity_pass mixed) = [''a'', ''b''] \<and>
   fst (prune_trace 1500 1500 mixed) = [''a'', ''b'', ''c''] \<and>
   fst (prune_trace 1500 1500 mixed) @ map fst (values (prune 1500 1500 mixed))
     = map fst (values mixed) \<and>
   values (prune 1500 1500 mixed) = drop (length (fst (prune_trace 1500 1500 mixed))) (values mixed)"
proof -
  have d: "distinct (map fst (values mixed))"
    and k: "map fst (values mixed) = [''a'', ''b'', ''c'', ''d'']"
    by (simp_all add: mixed_eval)
  have c: "fst (capacity_pass mixed) = [''a'', ''b'']"
    by (simp add: mixed_eval cache_defs)
  have t: "fst (prune_trace 1500 1500 mixed) = [''a'', ''b'', ''c'']"
    by (simp add: mixed_prune_eval)
  note i = prune_in_insertion_order[OF d, of 1500 1500]
  from d k c t conjunct1[OF i] conjunct1[OF conjunct2[OF i]] show ?thesis by (intro conjI)
qed

subsection \<open>C8: prune is idempotent\<close>

text \<open>
  Claim C8: calling \<open>prune\<close> twice in succession, with no insert in between and at the same
  observed time, leaves the same state as calling it once: the second call is a no-op. For
  a map with distinct keys and \<open>pruneAmount \<ge> 0\<close>, and a second call that computes the same
  \<open>expiry\<close> (its other clock reading may differ): the second call deletes nothing and
  returns the state it was given.
\<close>

theorem prune_idempotent:
  assumes "distinct (map fst (values s))" and "0 \<le> pruneAmount s"
  shows "prune now1 now2' (prune now1 now2 s) = prune now1 now2 s \<and>
         fst (prune_trace now1 now2' (prune now1 now2 s)) = []"
  using prune_twice[OF assms, of now1 now2' now2] by (simp add: prune_def)

theorem prune_idempotent_witness:
  "distinct (map fst (values mixed)) \<and> 0 \<le> pruneAmount mixed \<and>
   prune 1500 1500 mixed \<noteq> mixed \<and>
   prune 1500 1501 (prune 1500 1500 mixed) = prune 1500 1500 mixed \<and>
   fst (prune_trace 1500 1501 (prune 1500 1500 mixed)) = []"
proof -
  have d: "distinct (map fst (values mixed))" and p: "0 \<le> pruneAmount mixed"
    by (simp_all add: mixed_eval)
  have "values (prune 1500 1500 mixed) \<noteq> values mixed"
    by (simp add: prune_def mixed_prune_eval) (simp add: mixed_eval)
  then have n: "prune 1500 1500 mixed \<noteq> mixed" by force
  note i = prune_idempotent[OF d p, of 1500 1501 1500]
  from d p n conjunct1[OF i] conjunct2[OF i] show ?thesis by (intro conjI)
qed

subsection \<open>C9: prune only removes\<close>

text \<open>
  Claim C9: \<open>prune\<close> only ever removes entries: every entry present after a \<open>prune\<close> call
  was present before it with the same value and timestamp, and \<open>prune\<close> adds no entry and
  does not change the position of an entry relative to the other survivors. That is, the
  mapping after \<open>prune\<close> is a subsequence of the mapping before it, as lists of pairs of a
  key and an entry.
\<close>

theorem prune_only_removes:
  "subseq (values (prune now1 now2 s)) (values s)"
proof -
  have "subseq (values (snd (ttl_pass now1 now2 (snd (capacity_pass s)))))
               (values (snd (capacity_pass s)))"
    by (rule ttl_pass_subseq)
  moreover have "subseq (values (snd (capacity_pass s))) (values s)"
    by (rule capacity_pass_subseq)
  ultimately show ?thesis unfolding prune_snd by (rule subseq_order.trans)
qed

subsection \<open>C10: a hit is a present key\<close>

text \<open>
  Claim C10: hit detection in \<open>get\<close> depends only on the key's presence in the mapping,
  not on the cached value: for every key present in the cache, \<open>get\<close> returns the stored
  value without invoking the resolver, also when the value is falsy. The theorem holds for
  every type of values and every value: with the key in the mapping once \<open>get\<close> has pruned,
  \<open>get\<close> returns the stored value, the pruned cache, and the world unchanged. It is then
  applied to a cache that holds \<open>0\<close>, the empty string, \<open>false\<close>, \<open>null\<close> and
  \<open>undefined\<close>.
\<close>

theorem get_hit_ignores_value:
  assumes "map_of (values (prune now1 now2 s)) key = Some hit"
  shows "get now1 now2 now3 key s w = (Inr (value hit), prune now1 now2 s, w)"
  using assms by (simp add: get_unfold)

theorem get_hit_ignores_value_witness:
  "prune 6 6 falsy_cache = falsy_cache \<and>
   falsy (JSNum 0) \<and> get 6 6 6 ''zero'' falsy_cache 0 = (Inr (JSNum 0), falsy_cache, 0) \<and>
   falsy (JSStr []) \<and> get 6 6 6 ''empty'' falsy_cache 0 = (Inr (JSStr []), falsy_cache, 0) \<and>
   falsy (JSBool False) \<and>
     get 6 6 6 ''false'' falsy_cache 0 = (Inr (JSBool False), falsy_cache, 0) \<and>
   falsy JSNull \<and> get 6 6 6 ''null'' falsy_cache 0 = (Inr JSNull, falsy_cache, 0) \<and>
   falsy JSUndefined \<and>
     get 6 6 6 ''undefined'' falsy_cache 0 = (Inr JSUndefined, falsy_cache, 0)"
proof -
  have p: "prune 6 6 falsy_cache = falsy_cache"
    by (simp add: falsy_cache_def cache_defs)
  have h: "map_of (values (prune 6 6 falsy_cache)) ''zero'' = Some \<lparr>value = JSNum 0, entered = 1\<rparr>"
    "map_of (values (prune 6 6 falsy_cache)) ''empty'' = Some \<lparr>value = JSStr [], entered = 2\<rparr>"
    "map_of (values (prune 6 6 falsy_cache)) ''false'' = Some \<lparr>value = JSBool False, entered = 3\<rparr>"
    "map_of (values (prune 6 6 falsy_cache)) ''null'' = Some \<lparr>value = JSNull, entered = 4\<rparr>"
    "map_of (values (prune 6 6 falsy_cache)) ''undefined'' = Some \<lparr>value = JSUndefined, entered = 5\<rparr>"
    unfolding p by (simp_all add: falsy_cache_def)
  have f: "falsy (JSNum 0)" "falsy (JSStr [])" "falsy (JSBool False)" "falsy JSNull"
    "falsy JSUndefined" by simp_all
  note g = h(1)[THEN get_hit_ignores_value, of 6 "0::nat", unfolded p Entry.simps]
    h(2)[THEN get_hit_ignores_value, of 6 "0::nat", unfolded p Entry.simps]
    h(3)[THEN get_hit_ignores_value, of 6 "0::nat", unfolded p Entry.simps]
    h(4)[THEN get_hit_ignores_value, of 6 "0::nat", unfolded p Entry.simps]
    h(5)[THEN get_hit_ignores_value, of 6 "0::nat", unfolded p Entry.simps]
  from p f g show ?thesis by (intro conjI)
qed

end
